theory Spec2Isabelle
  imports Complex_Main "HOL-Library.AList"
begin

section \<open>Strings\<close>

text \<open>
  Python strings are modelled as \<open>string\<close>; a character is a code point below 256.
  The two characters that cannot be written inside a string literal get a name.
\<close>

definition bslash :: char where
  "bslash = CHR 0x5C"

definition newline :: char where
  "newline = CHR 0x0A"

text \<open>\<^verbatim>\<open>s.endswith(c)\<close> for a character \<open>c\<close>.\<close>

definition ends_with :: "char \<Rightarrow> string \<Rightarrow> bool" where
  "ends_with c s = (s \<noteq> [] \<and> last s = c)"

text \<open>\<^verbatim>\<open>s.split(sep)\<close> for a one-character separator: never an empty list.\<close>

fun str_split :: "char \<Rightarrow> string \<Rightarrow> string list" where
  "str_split sep [] = [[]]"
| "str_split sep (c # cs) =
     (if c = sep then [] # str_split sep cs
      else (case str_split sep cs of
              [] \<Rightarrow> [[c]]
            | x # xs \<Rightarrow> (c # x) # xs))"

text \<open>\<^verbatim>\<open>sep.join(xs)\<close>.\<close>

fun str_join :: "string \<Rightarrow> string list \<Rightarrow> string" where
  "str_join sep [] = []"
| "str_join sep [x] = x"
| "str_join sep (x # y # zs) = x @ sep @ str_join sep (y # zs)"

section \<open>The shape key\<close>

text \<open>
  \<^verbatim>\<open>
  def url_hash(url):
      return '/'.join(':' for s in url.split('/'))
  \<close>
\<close>

definition url_hash :: "string \<Rightarrow> string" where
  "url_hash url = str_join ''/'' (map (\<lambda>s. '':'') (str_split CHR ''/'' url))"

section \<open>Errors and values\<close>

text \<open>
  Every exception that can leave \<^verbatim>\<open>Router.add\<close> or \<^verbatim>\<open>Router.get\<close> is a value.
  \<open>NotFound\<close> carries its message; \<open>InvalidUsage\<close> its message and status code.
  \<open>ValueError\<close> is what \<^verbatim>\<open>int\<close> and \<^verbatim>\<open>float\<close> raise, \<open>AttributeError\<close> what
  \<^verbatim>\<open>None.groups\<close> raises, \<open>IndexError\<close> what \<^verbatim>\<open>[][0]\<close> raises, \<open>ReError\<close> is
  \<^verbatim>\<open>re.error\<close>. \<open>Unmodelled\<close> is no Python exception: it marks input on which this
  development does not say what Python does.
\<close>

datatype error =
    NotFound string
  | InvalidUsage string nat
  | ValueError
  | AttributeError
  | IndexError
  | ReError
  | Unmodelled

datatype pyval = PStr string | PInt int | PFloat string

section \<open>Regular expressions\<close>

text \<open>
  The fragment of Python's \<^verbatim>\<open>re\<close> that is modelled: literal characters, \<^verbatim>\<open>.\<close>,
  character classes with ranges and negation, the escape \<^verbatim>\<open>\d\<close>, escaped punctuation,
  capturing groups, alternation, the quantifiers \<^verbatim>\<open>*\<close>, \<^verbatim>\<open>+\<close>, \<^verbatim>\<open>?\<close> and their
  lazy forms over a body that cannot match the empty string, and the anchors \<^verbatim>\<open>^\<close>
  and \<^verbatim>\<open>$\<close>. A pattern string that Python rejects compiles to \<open>ReError\<close>, one
  outside this fragment to \<open>Unmodelled\<close>.
  In \<open>Rep g one r\<close> and \<open>Opt g r\<close> the flag \<open>g\<close> says greedy; \<open>one\<close> says that
  at least one iteration is required.
\<close>

datatype regex =
    Epsilon
  | Lit char
  | AnyChar
  | Cls bool "(char \<times> char) list"
  | Bol
  | Eol
  | Cat regex regex
  | Or regex regex
  | Rep bool bool regex
  | Opt bool regex
  | Group nat regex

type_synonym groups = "string option list"

type_synonym mstate = "string \<times> groups"

definition code :: "char \<Rightarrow> nat" where
  "code c = of_char c"

definition in_cls :: "bool \<Rightarrow> (char \<times> char) list \<Rightarrow> char \<Rightarrow> bool" where
  "in_cls neg rs c = (list_ex (\<lambda>r. code (fst r) \<le> code c \<and> code c \<le> code (snd r)) rs \<noteq> neg)"

fun one_char :: "(char \<Rightarrow> bool) \<Rightarrow> mstate \<Rightarrow> mstate list" where
  "one_char P ([], caps) = []"
| "one_char P (d # ds, caps) = (if P d then [(ds, caps)] else [])"

text \<open>
  \<open>ms n r st\<close>: all ways in which \<open>r\<close> matches at state \<open>st\<close> (the text still to be read
  and the groups captured so far), in the order in which a backtracking matcher tries
  them; \<open>n\<close> is the length of the whole subject. \<^verbatim>\<open>$\<close> holds at the end and before a
  final newline; \<^verbatim>\<open>.\<close> reads anything but a newline.
\<close>

function ms :: "nat \<Rightarrow> regex \<Rightarrow> mstate \<Rightarrow> mstate list" where
  "ms n Epsilon st = [st]"
| "ms n (Lit c) st = one_char (\<lambda>d. d = c) st"
| "ms n AnyChar st = one_char (\<lambda>d. d \<noteq> newline) st"
| "ms n (Cls neg rs) st = one_char (in_cls neg rs) st"
| "ms n Bol st = (if length (fst st) = n then [st] else [])"
| "ms n Eol st = (if fst st = [] \<or> fst st = [newline] then [st] else [])"
| "ms n (Cat a b) st = concat (map (ms n b) (ms n a st))"
| "ms n (Or a b) st = ms n a st @ ms n b st"
| "ms n (Rep g one r) st =
     (let more = concat (map (\<lambda>st'. if length (fst st') < length (fst st)
                                      then ms n (Rep g False r) st' else [])
                             (ms n r st));
          skip = (if one then [] else [st])
      in if g then more @ skip else skip @ more)"
| "ms n (Opt g r) st = (if g then ms n r st @ [st] else st # ms n r st)"
| "ms n (Group k r) st =
     map (\<lambda>st'. (fst st',
                  (snd st')[k - 1 := Some (take (length (fst st) - length (fst st')) (fst st))]))
         (ms n r st)"
  by pat_completeness auto
termination
  by (relation "measures [\<lambda>(n, r, st). size r, \<lambda>(n, r, st). length (fst st)]") auto

text \<open>
  A compiled pattern is the expression and its number of groups.
  \<^verbatim>\<open>pattern.match(s)\<close> is the first way to match at the start of \<open>s\<close>: \<open>first_match\<close>
  gives the text that the match leaves unread and the groups, \<open>re_match\<close> the list
  \<^verbatim>\<open>match.groups()\<close>, with \<open>None\<close> for a group that took no part.
\<close>

type_synonym compiled = "regex \<times> nat"

definition first_match :: "compiled \<Rightarrow> string \<Rightarrow> mstate option" where
  "first_match p s =
     (case ms (length s) (fst p) (s, replicate (snd p) None) of
        [] \<Rightarrow> None
      | st # _ \<Rightarrow> Some st)"

definition re_match :: "compiled \<Rightarrow> string \<Rightarrow> groups option" where
  "re_match p s = map_option snd (first_match p s)"

text \<open>An expression that is an alternation as a whole.\<close>

fun top_alt :: "regex \<Rightarrow> bool" where
  "top_alt (Or a b) = True"
| "top_alt r = False"

subsection \<open>Compiling a pattern string\<close>

fun nullable :: "regex \<Rightarrow> bool" where
  "nullable Epsilon = True"
| "nullable (Lit c) = False"
| "nullable AnyChar = False"
| "nullable (Cls neg rs) = False"
| "nullable Bol = True"
| "nullable Eol = True"
| "nullable (Cat a b) = (nullable a \<and> nullable b)"
| "nullable (Or a b) = (nullable a \<or> nullable b)"
| "nullable (Rep g one r) = (\<not> one \<or> nullable r)"
| "nullable (Opt g r) = True"
| "nullable (Group k r) = nullable r"

definition ascii_alnum :: "char \<Rightarrow> bool" where
  "ascii_alnum c =
     ((code CHR ''0'' \<le> code c \<and> code c \<le> code CHR ''9'') \<or>
      (code CHR ''A'' \<le> code c \<and> code c \<le> code CHR ''Z'') \<or>
      (code CHR ''a'' \<le> code c \<and> code c \<le> code CHR ''z''))"

text \<open>
  The inside of a character class, after \<^verbatim>\<open>[\<close> and an optional \<^verbatim>\<open>^\<close>, up to the
  closing bracket: the ranges read and the text that follows. A range whose ends are
  in the wrong order is an error of Python's; a class that opens with \<^verbatim>\<open>]\<close>, contains
  \<^verbatim>\<open>[\<close>, or has an escape at either end of a range is not modelled.
\<close>

fun parse_class :: "string \<Rightarrow> (char \<times> char) list \<Rightarrow> error + (char \<times> char) list \<times> string" where
  "parse_class [] acc = Inl ReError"
| "parse_class (c # cs) acc =
     (if c = CHR '']'' then (if acc = [] then Inl Unmodelled else Inr (rev acc, cs))
      else if c = CHR ''['' then Inl Unmodelled
      else if c = bslash then
        (case cs of
           [] \<Rightarrow> Inl ReError
         | d # cs' \<Rightarrow>
             if take 1 cs' = ''-'' then Inl Unmodelled
             else if d = CHR ''d'' then parse_class cs' ((CHR ''0'', CHR ''9'') # acc)
             else if ascii_alnum d then Inl Unmodelled
             else parse_class cs' ((d, d) # acc))
      else
        (case cs of
           m # e # cs' \<Rightarrow>
             if m = CHR ''-'' \<and> e \<noteq> CHR '']'' then
               (if e = bslash \<or> e = CHR ''['' then Inl Unmodelled
                else if code c \<le> code e then parse_class cs' ((c, e) # acc)
                else Inl ReError)
             else parse_class cs ((c, c) # acc)
         | _ \<Rightarrow> parse_class cs ((c, c) # acc)))"

text \<open>
  The parser keeps one frame for each group that is open, the innermost first: the
  group's number, the alternatives that are complete and the items of the alternative
  being read, both most recent first.
\<close>

record frame =
  fgroup :: nat
  falts :: "regex list"
  fitems :: "regex list"

definition seq_of :: "regex list \<Rightarrow> regex" where
  "seq_of items = foldl (\<lambda>acc x. Cat x acc) Epsilon items"

definition close_frame :: "frame \<Rightarrow> regex" where
  "close_frame f = foldl (\<lambda>acc a. Or a acc) (seq_of (fitems f)) (falts f)"

definition push :: "regex \<Rightarrow> frame \<Rightarrow> frame" where
  "push x f = f\<lparr>fitems := x # fitems f\<rparr>"

text \<open>
  A quantifier applies to the last item. With nothing before it, or after an anchor,
  Python reports "nothing to repeat". \<^verbatim>\<open>?\<close> after a greedy quantifier makes it lazy;
  any other quantifier after a quantifier is not modelled, nor is a quantifier over a
  body that can match the empty string.
\<close>

definition quantify :: "char \<Rightarrow> regex list \<Rightarrow> error + regex list" where
  "quantify q items =
     (case items of
        [] \<Rightarrow> Inl ReError
      | x # xs \<Rightarrow>
          (case x of
             Bol \<Rightarrow> Inl ReError
           | Eol \<Rightarrow> Inl ReError
           | Rep g one r \<Rightarrow>
               if q = CHR ''?'' \<and> g then Inr (Rep False one r # xs) else Inl Unmodelled
           | Opt g r \<Rightarrow>
               if q = CHR ''?'' \<and> g then Inr (Opt False r # xs) else Inl Unmodelled
           | _ \<Rightarrow>
               if nullable x then Inl Unmodelled
               else if q = CHR ''*'' then Inr (Rep True False x # xs)
               else if q = CHR ''+'' then Inr (Rep True True x # xs)
               else Inr (Opt True x # xs)))"

definition escape :: "char \<Rightarrow> error + regex" where
  "escape d =
     (if d = CHR ''d'' then Inr (Cls False [(CHR ''0'', CHR ''9'')])
      else if ascii_alnum d then Inl Unmodelled
      else Inr (Lit d))"

lemma parse_class_shorter:
  "parse_class s acc = Inr p \<Longrightarrow> length (snd p) < length s"
proof (induction s acc rule: parse_class.induct)
  case (1 acc)
  then show ?case by simp
next
  case (2 c cs acc)
  then show ?case
    by (auto split: if_splits list.splits simp del: take_Suc_Cons)
qed

text \<open>\<open>parse s fs n\<close>: \<open>s\<close> is still to be read, \<open>n\<close> groups have been opened.\<close>

function parse :: "string \<Rightarrow> frame list \<Rightarrow> nat \<Rightarrow> error + compiled" where
  "parse [] fs n =
     (case fs of
        [f] \<Rightarrow> Inr (close_frame f, n)
      | _ \<Rightarrow> Inl ReError)"
| "parse (c # cs) fs n =
     (case fs of
        [] \<Rightarrow> Inl ReError
      | f # fs' \<Rightarrow>
          if c = CHR ''('' then
            (if take 1 cs = ''?'' then Inl Unmodelled
             else parse cs (\<lparr>fgroup = Suc n, falts = [], fitems = []\<rparr> # fs) (Suc n))
          else if c = CHR '')'' then
            (case fs' of
               [] \<Rightarrow> Inl ReError
             | p # ps \<Rightarrow> parse cs (push (Group (fgroup f) (close_frame f)) p # ps) n)
          else if c = CHR ''|'' then
            parse cs (f\<lparr>falts := seq_of (fitems f) # falts f, fitems := []\<rparr> # fs') n
          else if c = CHR ''*'' \<or> c = CHR ''+'' \<or> c = CHR ''?'' then
            (case quantify c (fitems f) of
               Inl e \<Rightarrow> Inl e
             | Inr items \<Rightarrow> parse cs (f\<lparr>fitems := items\<rparr> # fs') n)
          else if c = CHR ''['' then
            (case parse_class (if take 1 cs = ''^'' then drop 1 cs else cs) [] of
               Inl e \<Rightarrow> Inl e
             | Inr p \<Rightarrow> parse (snd p) (push (Cls (take 1 cs = ''^'') (fst p)) f # fs') n)
          else if c = bslash then
            (case cs of
               [] \<Rightarrow> Inl ReError
             | d # cs' \<Rightarrow>
                 (case escape d of
                    Inl e \<Rightarrow> Inl e
                  | Inr x \<Rightarrow> parse cs' (push x f # fs') n))
          else if c = CHR ''{'' then Inl Unmodelled
          else if c = CHR ''.'' then parse cs (push AnyChar f # fs') n
          else if c = CHR ''^'' then parse cs (push Bol f # fs') n
          else if c = CHR ''$'' then parse cs (push Eol f # fs') n
          else parse cs (push (Lit c) f # fs') n)"
  by pat_completeness auto
termination
  by (relation "measure (\<lambda>(s, fs, n). length s)")
     (auto dest!: parse_class_shorter split: if_splits)

text \<open>\<^verbatim>\<open>re.compile(s)\<close>.\<close>

definition re_compile :: "string \<Rightarrow> error + compiled" where
  "re_compile s = parse s [\<lparr>fgroup = 0, falts = [], fitems = []\<rparr>] 0"

text \<open>A character with no special meaning in a pattern string.\<close>

definition plain :: "char \<Rightarrow> bool" where
  "plain c = (c \<notin> set ''()[]{}|*+?.^$'' \<and> c \<noteq> bslash)"

section \<open>Casts\<close>

text \<open>
  The cast of a parameter is one of \<^verbatim>\<open>str\<close>, \<^verbatim>\<open>int\<close>, \<^verbatim>\<open>float\<close>. A cast is applied to
  an element of \<^verbatim>\<open>match.groups(1)\<close>: the text of the group, or the integer \<^verbatim>\<open>1\<close> for a
  group that took no part in the match (\<open>None\<close> here).
\<close>

datatype cast = Py_str | Py_int | Py_float

definition is_digit :: "char \<Rightarrow> bool" where
  "is_digit c = (code CHR ''0'' \<le> code c \<and> code c \<le> code CHR ''9'')"

definition is_space :: "char \<Rightarrow> bool" where
  "is_space c =
     ((9 \<le> code c \<and> code c \<le> 13) \<or> (28 \<le> code c \<and> code c \<le> 32) \<or>
      code c = 133 \<or> code c = 160)"

definition dec_val :: "string \<Rightarrow> nat" where
  "dec_val s = foldl (\<lambda>a c. 10 * a + (code c - code CHR ''0'')) 0 s"

text \<open>
  \<^verbatim>\<open>int(s)\<close>: a string of digits is its decimal value; a string with a character that
  is not a digit, a sign, an underscore or white space raises \<open>ValueError\<close>, as does
  the empty string. The strings in between (signs, padding, underscores) are not
  modelled, nor are strings of more than 4300 digits, which recent versions of Python
  refuse.
\<close>

definition py_int :: "string \<Rightarrow> error + pyval" where
  "py_int s =
     (if s \<noteq> [] \<and> list_all is_digit s then
        (if length s \<le> 4300 then Inr (PInt (int (dec_val s))) else Inl Unmodelled)
      else if s = [] \<or>
              list_ex (\<lambda>c. \<not> (is_digit c \<or> is_space c \<or> c \<in> set ''+-_'')) s
           then Inl ValueError
      else Inl Unmodelled)"

text \<open>
  \<^verbatim>\<open>float(s)\<close>: over digits and dots, the string is a number when it has at most one dot
  and at least one digit, and raises \<open>ValueError\<close> otherwise. \<open>PFloat s\<close> stands for the
  double that Python reads from the decimal \<open>s\<close>; which double that is, is not
  modelled. A string with a character that no float literal contains raises
  \<open>ValueError\<close>; exponents, signs, padding, \<^verbatim>\<open>inf\<close> and \<^verbatim>\<open>nan\<close> are not modelled.
\<close>

definition py_float :: "string \<Rightarrow> error + pyval" where
  "py_float s =
     (if list_all (\<lambda>c. is_digit c \<or> c = CHR ''.'') s then
        (if count_list s CHR ''.'' \<le> 1 \<and> list_ex is_digit s
         then Inr (PFloat s)
         else Inl ValueError)
      else if list_ex (\<lambda>c. \<not> (ascii_alnum c \<or> is_space c \<or> c \<in> set ''+-._'')) s
           then Inl ValueError
      else Inl Unmodelled)"

fun apply_cast :: "cast \<Rightarrow> string option \<Rightarrow> error + pyval" where
  "apply_cast Py_str (Some s) = Inr (PStr s)"
| "apply_cast Py_str None = Inr (PStr ''1'')"
| "apply_cast Py_int (Some s) = py_int s"
| "apply_cast Py_int None = Inr (PInt 1)"
| "apply_cast Py_float (Some s) = py_float s"
| "apply_cast Py_float None = Inr (PFloat ''1'')"

section \<open>Routes\<close>

text \<open>
  \<^verbatim>\<open>
  Route = namedtuple('Route', ['handler', 'methods', 'pattern', 'parameters'])
  Parameter = namedtuple('Parameter', ['name', 'cast'])

  REGEX_TYPES = {
      'string': (str, r'[^/]+'),
      'int': (int, r'\d+'),
      'number': (float, r'[0-9\\.]+'),
      'alpha': (str, r'[A-Za-z]+'),
  }
  \<close>
  A handler is an opaque value of type \<open>'h\<close>. The methods of a route are a set, empty
  when any method is accepted.
\<close>

record parameter =
  name :: string
  cast :: cast

record 'h route =
  handler :: 'h
  methods :: "string set"
  pattern :: compiled
  parameters :: "parameter list"

definition REGEX_TYPES :: "string \<rightharpoonup> cast \<times> string" where
  "REGEX_TYPES = map_of
     [(''string'', (Py_str, ''[^/]+'')),
      (''int'', (Py_int, bslash # ''d+'')),
      (''number'', (Py_float, ''[0-9'' @ [bslash, bslash] @ ''.]+'')),
      (''alpha'', (Py_str, ''[A-Za-z]+''))]"

text \<open>
  The router's table is a \<^verbatim>\<open>defaultdict(list)\<close>: a map from keys to buckets, in which
  reading a missing key inserts an empty bucket.
\<close>

type_synonym 'h routes = "string \<rightharpoonup> 'h route list"

text \<open>\<^verbatim>\<open>self.routes[k]\<close>: the bucket read, and the table afterwards.\<close>

definition dd_get :: "'h routes \<Rightarrow> string \<Rightarrow> 'h route list \<times> 'h routes" where
  "dd_get routes k =
     (case routes k of
        None \<Rightarrow> ([], routes(k \<mapsto> []))
      | Some b \<Rightarrow> (b, routes))"

text \<open>\<^verbatim>\<open>Router.__init__\<close>: the table of a new router.\<close>

definition fresh :: "'h routes" where
  "fresh = Map.empty"

subsection \<open>Registration\<close>

text \<open>
  \<^verbatim>\<open>
  def add_parameter(match):
      # We could receive NAME or NAME:PATTERN
      name = match.group(1)
      pattern = 'string'
      if ':' in name:
          name, pattern = name.split(':', 1)

      default = (str, pattern)
      # Pull from pre-configured types
      _type, pattern = REGEX_TYPES.get(pattern, default)
      parameters.append(Parameter(name=name, cast=_type))
      return '({})'.format(pattern)
  \<close>
  The model returns the parameter that the source appends, and the replacement text.
\<close>

definition add_parameter :: "string \<Rightarrow> parameter \<times> string" where
  "add_parameter g =
     (let np = (if CHR '':'' \<in> set g
                then (takeWhile (\<lambda>c. c \<noteq> CHR '':'') g, tl (dropWhile (\<lambda>c. c \<noteq> CHR '':'') g))
                else (g, ''string''));
          tp = (case REGEX_TYPES (snd np) of
                  None \<Rightarrow> (Py_str, snd np)
                | Some t \<Rightarrow> t)
      in (\<lparr>name = fst np, cast = fst tp\<rparr>, ''('' @ snd tp @ '')''))"

text \<open>
  \<^verbatim>\<open>re.sub(r'<(.+?)>', add_parameter, uri)\<close>. A match of \<^verbatim>\<open><(.+?)>\<close> at the start of a
  text is \<^verbatim>\<open><\<close>, one character that is not a newline, and then the shortest run of
  such characters that reaches a \<^verbatim>\<open>>\<close>. \<open>find_close\<close> reads that run;
  \<open>placeholder_at\<close> gives the group and the text after the match. The substitution
  replaces the matches from left to right, without overlap.
\<close>

fun find_close :: "string \<Rightarrow> (string \<times> string) option" where
  "find_close [] = None"
| "find_close (c # cs) =
     (if c = CHR ''>'' then Some ([], cs)
      else if c = newline then None
      else (case find_close cs of
              None \<Rightarrow> None
            | Some p \<Rightarrow> Some (c # fst p, snd p)))"

definition placeholder_at :: "string \<Rightarrow> (string \<times> string) option" where
  "placeholder_at s =
     (case s of
        c # d # ds \<Rightarrow>
          if c = CHR ''<'' \<and> d \<noteq> newline
          then (case find_close ds of
                  None \<Rightarrow> None
                | Some p \<Rightarrow> Some (d # fst p, snd p))
          else None
      | _ \<Rightarrow> None)"

lemma find_close_shorter: "find_close s = Some p \<Longrightarrow> length (snd p) < length s"
  by (induction s arbitrary: p) (auto split: if_splits option.splits)

lemma placeholder_at_shorter: "placeholder_at s = Some p \<Longrightarrow> length (snd p) < length s"
  by (auto simp: placeholder_at_def split: list.splits if_splits option.splits
           dest!: find_close_shorter)

function sub_params :: "string \<Rightarrow> string \<times> parameter list" where
  "sub_params [] = ([], [])"
| "sub_params (c # cs) =
     (case placeholder_at (c # cs) of
        None \<Rightarrow> (c # fst (sub_params cs), snd (sub_params cs))
      | Some p \<Rightarrow>
          (snd (add_parameter (fst p)) @ fst (sub_params (snd p)),
           fst (add_parameter (fst p)) # snd (sub_params (snd p))))"
  by pat_completeness auto
termination
  by (relation "measure length") (auto dest!: placeholder_at_shorter)

text \<open>
  \<^verbatim>\<open>
  def add(self, uri, methods, handler):
      # Dict for faster lookups of if method allowed
      if methods:
          methods = frozenset(methods)

      parameters = []
      ...
      pattern_string = re.sub(r'<(.+?)>', add_parameter, uri)
      pattern = re.compile(r'^{}$'.format(pattern_string))

      route = Route(
          handler=handler, methods=methods, pattern=pattern,
          parameters=parameters)

      if parameters:
          uri = url_hash(uri)
      self.routes[uri].append(route)
  \<close>
  When \<^verbatim>\<open>re.compile\<close> raises, nothing has been stored.
\<close>

definition new_route :: "string \<Rightarrow> string list \<Rightarrow> 'h \<Rightarrow> error + 'h route" where
  "new_route uri meths h =
     (let sp = sub_params uri;
          pattern_string = fst sp;
          params = snd sp
      in case re_compile (''^'' @ pattern_string @ ''$'') of
           Inl e \<Rightarrow> Inl e
         | Inr pat \<Rightarrow>
             Inr \<lparr>handler = h, methods = set meths, pattern = pat, parameters = params\<rparr>)"

definition route_key :: "string \<Rightarrow> 'h route \<Rightarrow> string" where
  "route_key uri route = (if parameters route \<noteq> [] then url_hash uri else uri)"

definition add :: "'h routes \<Rightarrow> string \<Rightarrow> string list \<Rightarrow> 'h \<Rightarrow> error + 'h routes" where
  "add routes uri meths h =
     (case new_route uri meths h of
        Inl e \<Rightarrow> Inl e
      | Inr route \<Rightarrow>
          (let key = route_key uri route;
               br = dd_get routes key
           in Inr ((snd br)(key \<mapsto> fst br @ [route]))))"

text \<open>Registrations one after the other; the first that raises ends them.\<close>

fun register_all :: "'h routes \<Rightarrow> (string \<times> string list \<times> 'h) list \<Rightarrow> error + 'h routes" where
  "register_all routes [] = Inr routes"
| "register_all routes (reg # regs) =
     (case add routes (fst reg) (fst (snd reg)) (snd (snd reg)) of
        Inl e \<Rightarrow> Inl e
      | Inr routes' \<Rightarrow> register_all routes' regs)"

subsection \<open>Resolution\<close>

record request =
  url :: string
  "method" :: string

type_synonym kwargs = "(string \<times> pyval) list"

type_synonym 'h resolved = "'h \<times> pyval list \<times> kwargs"

text \<open>
  The loop of \<^verbatim>\<open>get\<close> over a bucket, left by \<^verbatim>\<open>break\<close> at the first route whose
  pattern matches: that route and its match.
\<close>

fun scan :: "'h route list \<Rightarrow> string \<Rightarrow> ('h route \<times> groups) option" where
  "scan [] u = None"
| "scan (r # rs) u =
     (case re_match (pattern r) u of
        None \<Rightarrow> scan rs u
      | Some m \<Rightarrow> Some (r, m))"

text \<open>
  The dictionary comprehension: the casts are applied from left to right, the first
  one that raises ends it; a name that occurs again replaces the value stored under
  it.
\<close>

fun build_kwargs :: "(string option \<times> parameter) list \<Rightarrow> kwargs \<Rightarrow> error + kwargs" where
  "build_kwargs [] kw = Inr kw"
| "build_kwargs (vp # vps) kw =
     (case apply_cast (cast (snd vp)) (fst vp) of
        Inl e \<Rightarrow> Inl e
      | Inr x \<Rightarrow> build_kwargs vps (AList.update (name (snd vp)) x kw))"

text \<open>
  Lines 94 to 105 of \<^verbatim>\<open>get\<close>: the route selected for a URL and the value of
  \<^verbatim>\<open>match\<close>, which is \<open>None\<close> when the pattern of a route found under its own key
  does not match. The second component is the table afterwards.
  \<^verbatim>\<open>
  route = None
  url = request.url
  if url in self.routes:
      route = self.routes[url][0]
      match = route.pattern.match(url)
  else:
      for route in self.routes[url_hash(url)]:
          match = route.pattern.match(url)
          if match:
              break
      else:
          raise NotFound('Requested URL {} not found'.format(url))
  \<close>
\<close>

definition select_route ::
  "'h routes \<Rightarrow> string \<Rightarrow> (error + 'h route \<times> groups option) \<times> 'h routes" where
  "select_route routes u =
     (case routes u of
        Some b \<Rightarrow>
          (case b of
             [] \<Rightarrow> (Inl IndexError, routes)
           | route # _ \<Rightarrow> (Inr (route, re_match (pattern route) u), routes))
      | None \<Rightarrow>
          (let br = dd_get routes (url_hash u)
           in case scan (fst br) u of
                None \<Rightarrow> (Inl (NotFound (''Requested URL '' @ u @ '' not found'')), snd br)
              | Some rm \<Rightarrow> (Inr (fst rm, Some (snd rm)), snd br)))"

text \<open>
  Lines 107 to 115 of \<^verbatim>\<open>get\<close>: the method check and the extraction of the parameters,
  for the route selected and the value of \<^verbatim>\<open>match\<close>.
  \<^verbatim>\<open>
  if route.methods and request.method not in route.methods:
      raise InvalidUsage(
          'Method {} not allowed for URL {}'.format(
              request.method, url), status_code=405)

  kwargs = {p.name: p.cast(value)
            for value, p
            in zip(match.groups(1), route.parameters)}
  return route.handler, [], kwargs
  \<close>
\<close>

definition check_and_cast ::
  "'r request_scheme \<Rightarrow> 'h route \<times> groups option \<Rightarrow> error + 'h resolved" where
  "check_and_cast request rm =
     (if methods (fst rm) \<noteq> {} \<and> method request \<notin> methods (fst rm)
      then Inl (InvalidUsage (''Method '' @ method request @ '' not allowed for URL '' @
                              url request) 405)
      else (case snd rm of
              None \<Rightarrow> Inl AttributeError
            | Some gs \<Rightarrow>
                (case build_kwargs (zip gs (parameters (fst rm))) [] of
                   Inl e \<Rightarrow> Inl e
                 | Inr kw \<Rightarrow> Inr (handler (fst rm), [], kw))))"

text \<open>The body of \<^verbatim>\<open>get\<close>: the result or the exception, and the table afterwards.\<close>

definition get :: "'h routes \<Rightarrow> 'r request_scheme \<Rightarrow> (error + 'h resolved) \<times> 'h routes" where
  "get routes request =
     (case fst (select_route routes (url request)) of
        Inl e \<Rightarrow> (Inl e, snd (select_route routes (url request)))
      | Inr rm \<Rightarrow> (check_and_cast request rm, snd (select_route routes (url request))))"

subsection \<open>The cache\<close>

text \<open>
  \<^verbatim>\<open>
  @lru_cache(maxsize=Config.ROUTER_CACHE_SIZE)
  def get(self, request):
  \<close>
  \<open>get\<close> above is the body; \<open>lru_get\<close> is what a caller of \<^verbatim>\<open>Router.get\<close> runs.
  The capacity is a parameter, \<open>None\<close> for a cache without bound. The key is the
  request itself. The cache holds the results returned, the most recently used first;
  an exception is not stored. The state is the table and the cache.
\<close>

type_synonym ('h, 'r) cache = "('r request_scheme \<times> 'h resolved) list"

definition bounded :: "nat option \<Rightarrow> 'a list \<Rightarrow> 'a list" where
  "bounded maxsize xs = (case maxsize of None \<Rightarrow> xs | Some n \<Rightarrow> take n xs)"

definition lru_get ::
  "nat option \<Rightarrow> 'h routes \<times> ('h, 'r) cache \<Rightarrow> 'r request_scheme \<Rightarrow>
   (error + 'h resolved) \<times> 'h routes \<times> ('h, 'r) cache" where
  "lru_get maxsize st request =
     (case map_of (snd st) request of
        Some v \<Rightarrow> (Inr v, fst st, (request, v) # filter (\<lambda>kv. fst kv \<noteq> request) (snd st))
      | None \<Rightarrow>
          (case get (fst st) request of
             (Inl e, routes') \<Rightarrow> (Inl e, routes', snd st)
           | (Inr v, routes') \<Rightarrow> (Inr v, routes', bounded maxsize ((request, v) # snd st))))"

text \<open>The state after a sequence of requests has been served.\<close>

fun serve ::
  "nat option \<Rightarrow> 'h routes \<times> ('h, 'r) cache \<Rightarrow> 'r request_scheme list \<Rightarrow>
   'h routes \<times> ('h, 'r) cache" where
  "serve maxsize st [] = st"
| "serve maxsize st (q # qs) = serve maxsize (snd (lru_get maxsize st q)) qs"

section \<open>Invariants of a router in service\<close>

text \<open>
  Resolution changes the table only by the empty buckets that reading a missing key
  leaves behind. \<open>ext rs rs'\<close>: \<open>rs'\<close> is \<open>rs\<close> with such buckets, each under a key that
  is its own shape key. \<open>coherent rs st\<close>: the state \<open>st\<close> is the table \<open>rs\<close> with such
  buckets, and its cache holds only what resolution on \<open>rs\<close> returns.
\<close>

definition ext :: "'h routes \<Rightarrow> 'h routes \<Rightarrow> bool" where
  "ext rs rs' = (\<forall>k. rs' k = rs k \<or> (rs k = None \<and> rs' k = Some [] \<and> url_hash k = k))"

definition coherent :: "'h routes \<Rightarrow> 'h routes \<times> ('h, 'r) cache \<Rightarrow> bool" where
  "coherent rs st =
     (ext rs (fst st) \<and> (\<forall>kv \<in> set (snd st). fst (get rs (fst kv)) = Inr (snd kv)))"

text \<open>
  A pattern string whose last character is \<^verbatim>\<open>$\<close>, not escaped by a backslash before
  it.
\<close>

definition dollar_end :: "string \<Rightarrow> bool" where
  "dollar_end s = (\<exists>x. s = x @ ''$'' \<and> \<not> ends_with bslash x)"

lemmas re_defs =
  re_compile_def bslash_def newline_def escape_def push_def close_frame_def seq_of_def
  quantify_def re_match_def first_match_def in_cls_def code_def ascii_alnum_def

lemmas router_defs =
  fresh_def add_def new_route_def route_key_def dd_get_def get_def check_and_cast_def
  select_route_def
  url_hash_def placeholder_at_def add_parameter_def REGEX_TYPES_def
  py_int_def py_float_def is_digit_def is_space_def dec_val_def

section \<open>Properties of the shape key\<close>

lemma str_split_length: "length (str_split sep s) = Suc (count_list s sep)"
  by (induction s) (auto split: list.splits)

lemma map_const_replicate: "map (\<lambda>s. c) xs = replicate (length xs) c"
  by (induction xs) auto

lemma url_hash_replicate:
  "url_hash u = str_join ''/'' (replicate (Suc (count_list u CHR ''/'')) '':'')"
  by (simp only: url_hash_def map_const_replicate str_split_length)

lemma str_join_replicate_length:
  "length (str_join ''/'' (replicate (Suc n) '':'')) = 2 * n + 1"
proof (induction n)
  case 0
  show ?case by simp
next
  case (Suc n)
  have "str_join ''/'' (replicate (Suc (Suc n)) '':'') =
        '':'' @ ''/'' @ str_join ''/'' (replicate (Suc n) '':'')"
    by simp
  with Suc show ?case by simp
qed

lemma url_hash_length: "length (url_hash u) = 2 * count_list u CHR ''/'' + 1"
  by (simp only: url_hash_replicate str_join_replicate_length)



lemma count_join_replicate:
  "count_list (str_join ''/'' (replicate (Suc n) '':'')) CHR ''/'' = n"
proof (induction n)
  case 0
  show ?case by simp
next
  case (Suc n)
  have "str_join ''/'' (replicate (Suc (Suc n)) '':'') =
        '':'' @ ''/'' @ str_join ''/'' (replicate (Suc n) '':'')"
    by simp
  with Suc show ?case by simp
qed

lemma url_hash_count: "count_list (url_hash u) CHR ''/'' = count_list u CHR ''/''"
  by (simp only: url_hash_replicate count_join_replicate)

lemma url_hash_idem: "url_hash (url_hash u) = url_hash u"
  by (simp only: url_hash_replicate [of "url_hash u"] url_hash_count)
     (simp only: url_hash_replicate)

section \<open>Resolution as selection followed by extraction\<close>

lemma scan_append:
  "scan (xs @ ys) u = (case scan xs u of None \<Rightarrow> scan ys u | Some x \<Rightarrow> Some x)"
  by (induction xs) (auto split: option.splits)

lemma get_Inr_iff:
  "(fst (get rs q) = Inr v) =
   (\<exists>rm. fst (select_route rs (url q)) = Inr rm \<and> check_and_cast q rm = Inr v)"
  by (auto simp: get_def split: sum.splits)

lemma snd_get: "snd (get rs q) = snd (select_route rs (url q))"
  by (simp add: get_def split: sum.splits)

lemma get_request_fields:
  "fst (get rs q) = fst (get rs \<lparr>url = url q, method = method q\<rparr>)"
  by (simp add: get_def check_and_cast_def split: sum.splits)

lemma fst_get:
  "fst (get rs q) =
     (case fst (select_route rs (url q)) of Inl e \<Rightarrow> Inl e | Inr rm \<Rightarrow> check_and_cast q rm)"
  by (simp add: get_def split: sum.splits)

section \<open>The table and the cache while requests are served\<close>

lemma ext_refl: "ext rs rs"
  by (simp add: ext_def)

lemma select_route_ext:
  assumes "ext rs rs'"
  shows "ext rs (snd (select_route rs' u))"
    and "(fst (select_route rs' u) = Inr x) = (fst (select_route rs u) = Inr x)"
proof -
  from assms have k: "\<And>k. rs' k = rs k \<or> (rs k = None \<and> rs' k = Some [] \<and> url_hash k = k)"
    by (simp add: ext_def)
  show "ext rs (snd (select_route rs' u))"
    using k [of "url_hash u"] assms
    by (auto simp: select_route_def dd_get_def ext_def url_hash_idem Let_def
             split: option.splits list.splits)
  show "(fst (select_route rs' u) = Inr x) = (fst (select_route rs u) = Inr x)"
    using k [of u] k [of "url_hash u"]
    by (auto simp: select_route_def dd_get_def Let_def split: option.splits list.splits)
qed

lemma get_ext:
  assumes "ext rs rs'"
  shows "ext rs (snd (get rs' q))"
    and "(fst (get rs' q) = Inr v) = (fst (get rs q) = Inr v)"
  using select_route_ext [OF assms] by (simp_all add: snd_get get_Inr_iff)

lemma set_bounded: "set (bounded m xs) \<subseteq> set xs"
  by (auto simp: bounded_def split: option.splits dest: in_set_takeD)

lemma lru_get_coherent:
  assumes "coherent rs st"
  shows "coherent rs (snd (lru_get m st q))"
    and "(fst (lru_get m st q) = Inr v) = (fst (get rs q) = Inr v)"
proof -
  from assms have e: "ext rs (fst st)"
    and c: "\<And>k w. (k, w) \<in> set (snd st) \<Longrightarrow> fst (get rs k) = Inr w"
    by (auto simp: coherent_def)
  show "(fst (lru_get m st q) = Inr v) = (fst (get rs q) = Inr v)"
  proof (cases "map_of (snd st) q")
    case None
    then show ?thesis
      using get_ext(2) [OF e, of q v]
      by (cases "get (fst st) q"; cases "fst (get (fst st) q)") (auto simp: lru_get_def)
  next
    case (Some w)
    then have "fst (get rs q) = Inr w"
      by (auto dest: map_of_SomeD c)
    with Some show ?thesis
      by (auto simp: lru_get_def)
  qed
  show "coherent rs (snd (lru_get m st q))"
  proof (cases "map_of (snd st) q")
    case None
    show ?thesis
    proof (cases "fst (get (fst st) q)")
      case (Inl err)
      with None show ?thesis
        using get_ext(1) [OF e, of q] c
        by (cases "get (fst st) q") (auto simp: lru_get_def coherent_def)
    next
      case (Inr w)
      then have "fst (get rs q) = Inr w"
        using get_ext(2) [OF e, of q w] by simp
      with None Inr show ?thesis
        using get_ext(1) [OF e, of q] c set_bounded [of m "(q, w) # snd st"]
        by (cases "get (fst st) q") (auto simp: lru_get_def coherent_def)
    qed
  next
    case (Some w)
    then have "fst (get rs q) = Inr w"
      by (auto dest: map_of_SomeD c)
    with Some show ?thesis
      using e c by (auto simp: lru_get_def coherent_def)
  qed
qed

lemma serve_coherent: "coherent rs st \<Longrightarrow> coherent rs (serve m st qs)"
  by (induction qs arbitrary: st) (simp_all add: lru_get_coherent(1))

lemma coherent_start: "coherent rs (rs, [])"
  by (simp add: coherent_def ext_refl)

section \<open>Registration only appends to buckets\<close>

lemma add_Inr:
  assumes "add rs uri meths h = Inr rs'"
  obtains route where "new_route uri meths h = Inr route"
    and "rs' = rs(route_key uri route \<mapsto> fst (dd_get rs (route_key uri route)) @ [route])"
  using assms
  by (auto simp: add_def dd_get_def Let_def split: sum.splits option.splits)

lemma add_keeps_bucket:
  assumes "add rs uri meths h = Inr rs'" and "rs k = Some b"
  shows "\<exists>new. rs' k = Some (b @ new)"
proof -
  from assms(1) obtain route where
    rs': "rs' = rs(route_key uri route \<mapsto> fst (dd_get rs (route_key uri route)) @ [route])"
    by (rule add_Inr)
  show ?thesis
    using assms(2) by (cases "k = route_key uri route") (simp_all add: rs' dd_get_def)
qed

lemma register_all_keeps_bucket:
  "register_all rs regs = Inr rs' \<Longrightarrow> rs k = Some b \<Longrightarrow> \<exists>new. rs' k = Some (b @ new)"
proof (induction regs arbitrary: rs b)
  case Nil
  then show ?case by simp
next
  case (Cons reg regs)
  from Cons.prems(1) obtain rs1 where
    a: "add rs (fst reg) (fst (snd reg)) (snd (snd reg)) = Inr rs1"
    and r: "register_all rs1 regs = Inr rs'"
    by (auto split: sum.splits)
  from add_keeps_bucket [OF a Cons.prems(2)] obtain n1 where "rs1 k = Some (b @ n1)"
    by blast
  from Cons.IH [OF r this] show ?case by auto
qed

lemma select_route_head:
  "rs u = Some (r # b) \<Longrightarrow> select_route rs u = (Inr (r, re_match (pattern r) u), rs)"
  by (simp add: select_route_def)

lemma sub_params_static: "snd (sub_params p) = [] \<Longrightarrow> fst (sub_params p) = p"
  by (induction p rule: sub_params.induct) (auto split: option.splits)

lemma new_route_fields:
  "new_route uri meths h = Inr route \<Longrightarrow>
     handler route = h \<and> methods route = set meths \<and> parameters route = snd (sub_params uri) \<and>
     re_compile (''^'' @ fst (sub_params uri) @ ''$'') = Inr (pattern route)"
  by (auto simp: new_route_def Let_def split: sum.splits)

lemma static_registration:
  assumes "fst (dd_get rs0 p) = []" and "snd (sub_params p) = []"
    and "add rs0 p m1 h1 = Inr rs1" and "register_all rs1 regs = Inr rs2"
  obtains route b where "new_route p m1 h1 = Inr route" and "rs1 p = Some [route]"
    and "rs2 p = Some (route # b)"
proof -
  from assms(3) obtain route where nr: "new_route p m1 h1 = Inr route"
    and rs1: "rs1 = rs0(route_key p route \<mapsto> fst (dd_get rs0 (route_key p route)) @ [route])"
    by (rule add_Inr)
  from new_route_fields [OF nr] assms(2) have "route_key p route = p"
    by (simp add: route_key_def)
  with rs1 assms(1) have p1: "rs1 p = Some [route]" by simp
  from register_all_keeps_bucket [OF assms(4) p1] obtain new where "rs2 p = Some (route # new)"
    by auto
  with nr p1 show thesis by (rule that)
qed

lemma select_route_append:
  assumes "rs k = Some b" and "scan b u \<noteq> None"
  shows "fst (select_route (rs(k \<mapsto> b @ [r])) u) = fst (select_route rs u)"
proof (cases "u = k")
  case True
  from assms(2) obtain x xs where "b = x # xs"
    by (cases b) auto
  with True assms(1) show ?thesis
    by (simp add: select_route_def)
next
  case False
  then show ?thesis
    using assms
    by (auto simp: select_route_def dd_get_def scan_append Let_def
             split: option.splits list.splits)
qed

section \<open>Parameters and casts\<close>




lemma add_Inl_iff:
  "(add rs uri meths h = Inl e) = (re_compile (''^'' @ fst (sub_params uri) @ ''$'') = Inl e)"
  by (simp add: add_def new_route_def Let_def split: sum.splits)

lemma apply_cast_error: "apply_cast c v = Inl e \<Longrightarrow> e = ValueError \<or> e = Unmodelled"
  by (cases c; cases v) (auto simp: py_int_def py_float_def split: if_splits)

lemma build_kwargs_error:
  assumes "\<exists>vp \<in> set vps. apply_cast (cast (snd vp)) (fst vp) = Inl ValueError"
    and "\<forall>vp \<in> set vps. apply_cast (cast (snd vp)) (fst vp) \<noteq> Inl Unmodelled"
  shows "build_kwargs vps kw = Inl ValueError"
  using assms
proof (induction vps arbitrary: kw)
  case Nil
  then show ?case by simp
next
  case (Cons vp vps)
  show ?case
  proof (cases "apply_cast (cast (snd vp)) (fst vp)")
    case (Inl e)
    with Cons.prems(2) apply_cast_error [OF Inl] show ?thesis by auto
  next
    case (Inr x)
    with Cons.prems have "build_kwargs vps (AList.update (name (snd vp)) x kw) = Inl ValueError"
      by (intro Cons.IH) auto
    with Inr show ?thesis by simp
  qed
qed

section \<open>What a match leaves unread\<close>

lemma one_char_suffix: "st' \<in> set (one_char P st) \<Longrightarrow> \<exists>pre. fst st = pre @ fst st'"
  by (cases "(P, st)" rule: one_char.cases) (auto split: if_splits)

lemma ms_Rep_cases:
  assumes "st' \<in> set (ms n (Rep g one r) st)"
  obtains "st' = st"
  | mid where "mid \<in> set (ms n r st)" and "length (fst mid) < length (fst st)"
      and "st' \<in> set (ms n (Rep g False r) mid)"
proof -
  have "ms n (Rep g one r) st =
     (let more = concat (map (\<lambda>st'. if length (fst st') < length (fst st)
                                      then ms n (Rep g False r) st' else [])
                             (ms n r st));
          skip = (if one then [] else [st])
      in if g then more @ skip else skip @ more)"
    by (rule ms.simps(9))
  with assms have "st' = st \<or>
     (\<exists>mid \<in> set (ms n r st). st' \<in> set (if length (fst mid) < length (fst st)
                                      then ms n (Rep g False r) mid else []))"
    by (auto simp del: ms.simps simp: Let_def split: if_split_asm)
  then show thesis
    by (auto simp del: ms.simps split: if_split_asm intro: that)
qed

lemma ms_suffix: "st' \<in> set (ms n r st) \<Longrightarrow> \<exists>pre. fst st = pre @ fst st'"
proof (induction n r st arbitrary: st' rule: ms.induct)
  case (1 n st)
  then show ?case by simp
next
  case (2 n c st)
  then show ?case by (simp add: one_char_suffix)
next
  case (3 n st)
  then show ?case by (simp add: one_char_suffix)
next
  case (4 n neg rs st)
  then show ?case by (simp add: one_char_suffix)
next
  case (5 n st)
  then show ?case by (simp split: if_splits)
next
  case (6 n st)
  then show ?case by (simp split: if_splits)
next
  case (7 n a b st)
  from "7.prems" obtain mid where m: "mid \<in> set (ms n a st)" and s: "st' \<in> set (ms n b mid)"
    by auto
  from "7.IH"(1) [OF m] obtain p1 where "fst st = p1 @ fst mid" by blast
  moreover from "7.IH"(2) [OF m s] obtain p2 where "fst mid = p2 @ fst st'" by blast
  ultimately have "fst st = (p1 @ p2) @ fst st'" by simp
  then show ?case by blast
next
  case (8 n a b st)
  from "8.prems" have "st' \<in> set (ms n a st) \<or> st' \<in> set (ms n b st)" by simp
  with "8.IH" show ?case by blast
next
  case (9 n g one r st)
  from "9.prems" show ?case
  proof (cases rule: ms_Rep_cases)
    case 1
    then show ?thesis by simp
  next
    case (2 mid)
    from "9.IH"(1) [OF 2(1)] obtain p1 where "fst st = p1 @ fst mid" by blast
    moreover from "9.IH"(2) [OF 2(1) 2(2) 2(3)] obtain p2 where "fst mid = p2 @ fst st'" by blast
    ultimately have "fst st = (p1 @ p2) @ fst st'" by simp
    then show ?thesis by blast
  qed
next
  case (10 n g r st)
  from "10.prems" have "st' = st \<or> st' \<in> set (ms n r st)" by (auto split: if_splits)
  then show ?case
  proof
    assume "st' = st"
    then show ?thesis by simp
  next
    assume "st' \<in> set (ms n r st)"
    with "10.IH" show ?thesis by (cases g) blast+
  qed
next
  case (11 n k r st)
  from "11.prems" obtain mid where "mid \<in> set (ms n r st)" "fst st' = fst mid"
    by auto
  with "11.IH" show ?case by auto
qed


lemma ms_foldl_Cat:
  assumes "\<And>st0 st1. st1 \<in> set (ms n acc st0) \<Longrightarrow> Q (fst st1)"
    and "st' \<in> set (ms n (foldl (\<lambda>acc x. Cat x acc) acc items) st)"
  shows "Q (fst st')"
  using assms
proof (induction items arbitrary: acc st)
  case Nil
  then show ?case by simp
next
  case (Cons x items)
  have "Q (fst st1)" if "st1 \<in> set (ms n (Cat x acc) st0)" for st0 st1
  proof -
    from that obtain mid where "st1 \<in> set (ms n acc mid)" by auto
    then show ?thesis by (rule Cons.prems(1))
  qed
  with Cons.IH [of "Cat x acc" st] Cons.prems(2) show ?case
    by simp
qed

lemma ms_seq_of_Eol:
  assumes "st' \<in> set (ms n (seq_of (Eol # items)) st)"
  shows "fst st' = [] \<or> fst st' = [newline]"
proof (rule ms_foldl_Cat [where acc = "Cat Eol Epsilon" and items = items and n = n and st = st])
  show "fst st1 = [] \<or> fst st1 = [newline]" if "st1 \<in> set (ms n (Cat Eol Epsilon) st0)" for st0 st1
    using that by (auto split: if_splits)
  show "st' \<in> set (ms n (foldl (\<lambda>acc x. Cat x acc) (Cat Eol Epsilon) items) st)"
    using assms by (simp add: seq_of_def)
qed

lemma top_alt_foldl: "top_alt x \<Longrightarrow> top_alt (foldl (\<lambda>acc a. Or a acc) x as)"
  by (induction as arbitrary: x) auto

lemma not_top_alt_seq_of: "\<not> top_alt (seq_of items)"
proof (cases items)
  case Nil
  then show ?thesis by (simp add: seq_of_def)
next
  case (Cons x xs)
  have "\<not> top_alt (foldl (\<lambda>acc x. Cat x acc) (Cat y z) ys)" for y z ys
    by (induction ys arbitrary: y z) auto
  with Cons show ?thesis by (simp add: seq_of_def)
qed

lemma close_frame_not_alt: "\<not> top_alt (close_frame f) \<Longrightarrow> close_frame f = seq_of (fitems f)"
proof (cases "falts f")
  case Nil
  then show ?thesis by (simp add: close_frame_def)
next
  case (Cons a as)
  assume n: "\<not> top_alt (close_frame f)"
  have "top_alt (foldl (\<lambda>acc a. Or a acc) (Or a (seq_of (fitems f))) as)"
    by (rule top_alt_foldl) simp
  with Cons n show ?thesis by (simp add: close_frame_def)
qed

lemma parse_class_closes:
  "parse_class s acc = Inr p \<Longrightarrow> \<exists>z. s = z @ '']'' @ snd p"
proof (induction s acc rule: parse_class.induct)
  case (1 acc)
  then show ?case by simp
next
  case (2 c cs acc)
  note prem = "2.prems" [unfolded parse_class.simps(2)]
  have step: "\<exists>z. c # cs = z @ '']'' @ snd p" if "\<exists>z. cs' = z @ '']'' @ snd p" "cs = y @ cs'"
    for cs' y
  proof -
    from that obtain z where "cs' = z @ '']'' @ snd p" by blast
    with that(2) have "c # cs = (c # y @ z) @ '']'' @ snd p" by simp
    then show ?thesis by blast
  qed
  show ?case
  proof (cases "c = CHR '']''")
    case True
    with prem have "snd p = cs" by (auto split: if_splits)
    with True have "c # cs = [] @ '']'' @ snd p" by simp
    then show ?thesis by blast
  next
    case notclose: False
    show ?thesis
    proof (cases "c = CHR ''[''")
      case True
      with notclose prem show ?thesis by simp
    next
      case notopen: False
      show ?thesis
      proof (cases "c = bslash")
        case True
        with notclose notopen prem obtain d cs' where cs: "cs = d # cs'"
          by (cases cs) auto
        from True notclose notopen prem cs "2.IH"(1,2) [OF notclose notopen True cs]
        have "\<exists>z. cs' = z @ '']'' @ snd p"
          by (auto split: if_splits simp del: take_Suc_Cons parse_class.simps)
        then show ?thesis
          using cs by (intro step [of cs' "[d]"]) simp_all
      next
        case notesc: False
        note IH = "2.IH"
        show ?thesis
        proof (cases cs)
          case Nil
          with notclose notopen notesc prem show ?thesis by simp
        next
          case c1: (Cons m cs1)
          show ?thesis
          proof (cases cs1)
            case Nil
            with c1 notclose notopen notesc prem IH
            have "\<exists>z. cs = z @ '']'' @ snd p"
              by (auto split: if_splits simp del: parse_class.simps)
            then show ?thesis by (intro step [of cs "[]"]) simp_all
          next
            case c2: (Cons e cs2)
            show ?thesis
            proof (cases "m = CHR ''-'' \<and> e \<noteq> CHR '']''")
              case True
              with c1 c2 notclose notopen notesc prem IH
              have "\<exists>z. cs2 = z @ '']'' @ snd p"
                by (auto split: if_splits simp del: parse_class.simps)
              then show ?thesis
                using c1 c2 by (intro step [of cs2 "[m, e]"]) simp_all
            next
              case False
              with c1 c2 notclose notopen notesc prem IH
              have "\<exists>z. cs = z @ '']'' @ snd p"
                by (auto split: if_splits simp del: parse_class.simps)
              then show ?thesis by (intro step [of cs "[]"]) simp_all
            qed
          qed
        qed
      qed
    qed
  qed
qed


lemma parse_step:
  assumes "parse (c # cs) fs n = Inr res"
  shows "\<exists>cs' fs' n' z. parse cs' fs' n' = Inr res \<and> cs = z @ cs' \<and>
           (z = [] \<or> (c = bslash \<and> (\<exists>d. z = [d])) \<or>
            (c = CHR ''['' \<and> z \<noteq> [] \<and> last z = CHR '']'')) \<and>
           (c = CHR ''$'' \<longrightarrow> (\<exists>f fs0. fs = f # fs0 \<and> fs' = push Eol f # fs0))"
    (is ?goal)
proof -
  obtain f fs0 where fs: "fs = f # fs0"
  proof (cases fs)
    case Nil
    with assms show ?thesis by simp
  next
    case (Cons f fs0)
    then show ?thesis by (rule that)
  qed
  note prem = assms [unfolded parse.simps(2) fs list.case]
  have same: ?goal
    if "parse cs fs' n' = Inr res"
      and "c = CHR ''$'' \<longrightarrow> fs' = push Eol f # fs0" for fs' n'
    by (rule exI [of _ cs], rule exI [of _ fs'], rule exI [of _ n'], rule exI [of _ "[]"])
       (use that fs in simp)
  consider (popen) "c = CHR ''(''" | (pclose) "c = CHR '')''" | (bar) "c = CHR ''|''"
    | (quant) "c = CHR ''*'' \<or> c = CHR ''+'' \<or> c = CHR ''?''" | (cls) "c = CHR ''[''"
    | (esc) "c = bslash" | (brace) "c = CHR ''{''" | (dot) "c = CHR ''.''"
    | (caret) "c = CHR ''^''" | (dollar) "c = CHR ''$''"
    | (lit) "c \<noteq> CHR ''(''" "c \<noteq> CHR '')''" "c \<noteq> CHR ''|''" "c \<noteq> CHR ''*''"
        "c \<noteq> CHR ''+''" "c \<noteq> CHR ''?''" "c \<noteq> CHR ''[''" "c \<noteq> bslash" "c \<noteq> CHR ''{''"
        "c \<noteq> CHR ''.''" "c \<noteq> CHR ''^''" "c \<noteq> CHR ''$''"
    by blast
  then show ?thesis
  proof cases
    case popen
    with prem have "parse cs (\<lparr>fgroup = Suc n, falts = [], fitems = []\<rparr> # fs) (Suc n) = Inr res"
      by (simp add: fs del: parse.simps take_Suc_Cons split: if_splits)
    with popen show ?thesis
      by (intro same) simp_all
  next
    case pclose
    with prem obtain g gs where "fs0 = g # gs"
      and "parse cs (push (Group (fgroup f) (close_frame f)) g # gs) n = Inr res"
      by (cases fs0) (simp_all del: parse.simps)
    with pclose show ?thesis
      by (intro same) simp_all
  next
    case bar
    with prem have "parse cs (f\<lparr>falts := seq_of (fitems f) # falts f, fitems := []\<rparr> # fs0) n = Inr res"
      by (simp del: parse.simps)
    with bar show ?thesis
      by (intro same) simp_all
  next
    case quant
    with prem obtain items where "parse cs (f\<lparr>fitems := items\<rparr> # fs0) n = Inr res"
      by (cases "quantify c (fitems f)") (auto simp del: parse.simps)
    with quant show ?thesis
      by (intro same) auto
  next
    case cls
    let ?body = "if take 1 cs = ''^'' then drop 1 cs else cs"
    let ?neg = "if take 1 cs = ''^'' then take 1 cs else []"
    from cls prem obtain p where p: "parse_class ?body [] = Inr p"
      and r: "parse (snd p) (push (Cls (take 1 cs = ''^'') (fst p)) f # fs0) n = Inr res"
      by (auto split: sum.splits simp del: parse.simps take_Suc_Cons)
    from parse_class_closes [OF p] obtain z0 where z0: "?body = z0 @ '']'' @ snd p"
      by blast
    from z0 have "cs = (?neg @ z0 @ '']'') @ snd p"
      by (cases cs) (auto split: if_splits)
    with r cls show ?thesis
      by (intro exI [of _ "snd p"] exI [of _ "push (Cls (take 1 cs = ''^'') (fst p)) f # fs0"]
             exI [of _ n] exI [of _ "?neg @ z0 @ '']''"]) simp
  next
    case esc
    with prem obtain d cs1 x where cs: "cs = d # cs1"
      and r: "parse cs1 (push x f # fs0) n = Inr res"
      by (auto simp: bslash_def split: list.splits sum.splits simp del: parse.simps)
    from esc have "c \<noteq> CHR ''$''" by (simp add: bslash_def)
    with cs r esc show ?thesis
      by (intro exI [of _ cs1] exI [of _ "push x f # fs0"] exI [of _ n] exI [of _ "[d]"]) simp
  next
    case brace
    with prem show ?thesis
      by (simp add: bslash_def del: parse.simps)
  next
    case dot
    with prem have "parse cs (push AnyChar f # fs0) n = Inr res"
      by (simp add: bslash_def del: parse.simps)
    with dot show ?thesis
      by (intro same) simp_all
  next
    case caret
    with prem have "parse cs (push Bol f # fs0) n = Inr res"
      by (simp add: bslash_def del: parse.simps)
    with caret show ?thesis
      by (intro same) simp_all
  next
    case dollar
    with prem have p: "parse cs (push Eol f # fs0) n = Inr res"
      by (simp add: bslash_def del: parse.simps)
    show ?thesis
      by (rule same [OF p]) simp
  next
    case lit
    with prem have "parse cs (push (Lit c) f # fs0) n = Inr res"
      by (simp del: parse.simps)
    with lit show ?thesis
      by (intro same) simp_all
  qed
qed


section \<open>The pattern compiled from a string that ends in the anchor\<close>

lemma dollar_end_suffix:
  assumes "dollar_end (z @ s)" and "s \<noteq> []"
  shows "dollar_end s"
proof -
  from assms(1) obtain x where x: "z @ s = x @ ''$''" and nb: "\<not> ends_with bslash x"
    by (auto simp: dollar_end_def)
  from assms(2) obtain y where s: "s = y @ [last s]"
    by (metis append_butlast_last_id)
  with x have "z @ y @ [last s] = x @ ''$''" by simp
  then have xy: "x = z @ y" and "last s = CHR ''$''"
    by simp_all
  with s have "s = y @ ''$''" by simp
  moreover from nb xy have "\<not> ends_with bslash y"
    by (auto simp: ends_with_def)
  ultimately show ?thesis
    by (auto simp: dollar_end_def)
qed

lemma parse_dollar:
  "dollar_end s \<Longrightarrow> parse s fs n = Inr res \<Longrightarrow>
     \<exists>f items. fst res = close_frame f \<and> fitems f = Eol # items"
proof (induction "length s" arbitrary: s fs n rule: less_induct)
  case less
  from less.prems(1) obtain c cs where s: "s = c # cs"
    by (cases s) (auto simp: dollar_end_def)
  from parse_step [OF less.prems(2) [unfolded s]] obtain cs' fs' n' z where
    p: "parse cs' fs' n' = Inr res" and cs: "cs = z @ cs'"
    and z: "z = [] \<or> (c = bslash \<and> (\<exists>d. z = [d])) \<or>
            (c = CHR ''['' \<and> z \<noteq> [] \<and> last z = CHR '']'')"
    and d: "c = CHR ''$'' \<longrightarrow> (\<exists>f fs0. fs = f # fs0 \<and> fs' = push Eol f # fs0)"
    by blast
  show ?case
  proof (cases "cs' = []")
    case False
    from less.prems(1) have "dollar_end ((c # z) @ cs')"
      by (simp add: s cs)
    from dollar_end_suffix [OF this False] have "dollar_end cs'" .
    moreover have "length cs' < length s"
      by (simp add: s cs)
    ultimately show ?thesis
      using p by (intro less.hyps [of cs' fs' n'])
  next
    case True
    from less.prems(1) obtain x where x: "c # z = x @ ''$''" and nb: "\<not> ends_with bslash x"
      by (auto simp: dollar_end_def s cs True)
    have "z = []"
    proof (rule ccontr)
      assume nz: "z \<noteq> []"
      with x have l: "last z = CHR ''$''"
        by (metis last_ConsR last_snoc append_Nil2 append_Cons)
      from nz z consider d where "c = bslash" "z = [d]" | "last z = CHR '']''"
        by blast
      then show False
      proof cases
        case 1
        with x l have "x = [bslash]" by simp
        with nb show False by (simp add: ends_with_def)
      next
        case 2
        with l show False by simp
      qed
    qed
    with x have c: "c = CHR ''$''" by simp
    with d obtain f fs0 where fs': "fs' = push Eol f # fs0"
      by blast
    from p True fs' have "fs0 = []" and "fst res = close_frame (push Eol f)"
      by (auto split: list.splits)
    then show ?thesis
      by (auto simp: push_def)
  qed
qed


lemma compiled_ends_in_Eol:
  assumes "re_compile (''^'' @ ps @ ''$'') = Inr pat"
    and "\<not> top_alt (fst pat)"
    and "\<not> ends_with bslash ps"
  shows "\<exists>items. fst pat = seq_of (Eol # items)"
proof -
  have "\<not> ends_with bslash (''^'' @ ps)"
    using assms(3) by (auto simp: ends_with_def bslash_def)
  then have "dollar_end ((''^'' @ ps) @ ''$'')"
    unfolding dollar_end_def by blast
  then have "dollar_end (''^'' @ ps @ ''$'')" by simp
  from parse_dollar [OF this assms(1) [unfolded re_compile_def]]
  obtain f items where f: "fst pat = close_frame f" "fitems f = Eol # items"
    by blast
  with assms(2) close_frame_not_alt [of f] show ?thesis
    by auto
qed

lemma first_match_in_ms:
  "first_match p u = Some st \<Longrightarrow> st \<in> set (ms (length u) (fst p) (u, replicate (snd p) None))"
  by (auto simp: first_match_def split: list.splits)

section \<open>Paths without special characters\<close>

text \<open>
  A path of plain characters, compiled between the anchors, is the sequence of its
  characters and matches the path itself; without \<^verbatim>\<open><\<close> it has no placeholder.
\<close>

lemma parse_plain:
  "list_all plain s \<Longrightarrow>
     parse (s @ rest) (f # fs) n = parse rest (f\<lparr>fitems := rev (map Lit s) @ fitems f\<rparr> # fs) n"
proof (induction s arbitrary: f)
  case Nil
  then show ?case by simp
next
  case (Cons c cs)
  then have c: "plain c" and cs: "list_all plain cs" by simp_all
  from c have "parse ((c # cs) @ rest) (f # fs) n = parse (cs @ rest) (push (Lit c) f # fs) n"
    by (simp add: plain_def del: parse.simps add: parse.simps(2) [of c "cs @ rest"])
  also have "\<dots> = parse rest ((push (Lit c) f)\<lparr>fitems := rev (map Lit cs) @ fitems (push (Lit c) f)\<rparr> # fs) n"
    by (rule Cons.IH [OF cs])
  finally show ?case by (simp add: push_def)
qed

lemma seq_of_rev: "seq_of (rev xs) = foldr Cat xs Epsilon"
  by (simp add: seq_of_def foldl_conv_foldr)

lemma plain_path_compiles:
  assumes "list_all plain p"
  shows "re_compile (''^'' @ p @ ''$'') = Inr (foldr Cat (Bol # map Lit p @ [Eol]) Epsilon, 0)"
proof -
  let ?f0 = "\<lparr>fgroup = 0, falts = [], fitems = []\<rparr>"
  have "parse (''^'' @ p @ ''$'') [?f0] 0 = parse (p @ ''$'') [push Bol ?f0] 0"
    by (simp add: bslash_def)
  also have "\<dots> = parse ''$'' [(push Bol ?f0)\<lparr>fitems := rev (map Lit p) @ fitems (push Bol ?f0)\<rparr>] 0"
    by (rule parse_plain [OF assms])
  also have "\<dots> = Inr (seq_of (rev (Bol # map Lit p @ [Eol])), 0)"
    by (simp add: bslash_def push_def close_frame_def)
  finally show ?thesis
    by (simp only: re_compile_def seq_of_rev)
qed

lemma ms_literals:
  "ms n (foldr Cat (map Lit s) (Cat Eol Epsilon)) (s, caps) = [([], caps)]"
  by (induction s) simp_all

lemma plain_path_matches_itself:
  assumes "list_all plain p"
  shows "\<exists>pat. re_compile (''^'' @ p @ ''$'') = Inr pat \<and> re_match pat p = Some []"
proof -
  have "re_match (foldr Cat (Bol # map Lit p @ [Eol]) Epsilon, 0) p = Some []"
    by (simp add: re_match_def first_match_def ms_literals)
  with plain_path_compiles [OF assms] show ?thesis by blast
qed

lemma placeholder_at_other: "CHR ''<'' \<noteq> c \<Longrightarrow> placeholder_at (c # cs) = None"
  by (auto simp: placeholder_at_def split: list.splits)

lemma sub_params_no_placeholder: "CHR ''<'' \<notin> set p \<Longrightarrow> sub_params p = (p, [])"
  by (induction p) (simp_all add: placeholder_at_other)

section \<open>Groups, positions and the text before a placeholder\<close>




















section \<open>Registering and resolving a typed parameter\<close>

text \<open>
  C1. On a new router, after \<^verbatim>\<open>add("/users/<id:int>", ["GET"], h)\<close>, resolving
  \<^verbatim>\<open>/users/7\<close> with \<^verbatim>\<open>GET\<close> returns \<open>h\<close> with the parameter \<open>id\<close> bound to the
  integer 7, not to the string, and resolving \<^verbatim>\<open>/users/x\<close> raises \<open>NotFound\<close>:
  the digits of \<^verbatim>\<open>int\<close> do not match \<^verbatim>\<open>x\<close>.
\<close>

theorem users_id_int:
  "(case add fresh ''/users/<id:int>'' [''GET''] h of
      Inl e \<Rightarrow> False
    | Inr rs \<Rightarrow>
        fst (get rs \<lparr>url = ''/users/7'', method = ''GET''\<rparr>) = Inr (h, [], [(''id'', PInt 7)]) \<and>
        fst (get rs \<lparr>url = ''/users/7'', method = ''GET''\<rparr>) \<noteq> Inr (h, [], [(''id'', PStr ''7'')]) \<and>
        fst (get rs \<lparr>url = ''/users/x'', method = ''GET''\<rparr>) =
          Inl (NotFound ''Requested URL /users/x not found''))"
  by (simp add: re_defs router_defs)

section \<open>What the shape key is\<close>

text \<open>
  C4, as the code has it. The shape key of a template is one \<^verbatim>\<open>:\<close> for each of its
  segments between slashes, literal segments included, joined by slashes: the key of
  \<^verbatim>\<open>/users/<id:int>/posts\<close> is \<^verbatim>\<open>:/:/:/:\<close>. Two templates have the same key exactly
  when they have the same number of slashes.
\<close>

theorem url_hash_counts_segments:
  "url_hash t = str_join ''/'' (replicate (Suc (count_list t CHR ''/'')) '':'') \<and>
   url_hash ''/users/<id:int>/posts'' = '':/:/:/:'' \<and>
   (url_hash t = url_hash t' \<longleftrightarrow> count_list t CHR ''/'' = count_list t' CHR ''/'')"
proof -
  have a: "url_hash t = str_join ''/'' (replicate (Suc (count_list t CHR ''/'')) '':'')"
    by (rule url_hash_replicate)
  have b: "url_hash ''/users/<id:int>/posts'' = '':/:/:/:''"
    by (simp add: url_hash_def)
  have c: "url_hash t = url_hash t' \<longleftrightarrow> count_list t CHR ''/'' = count_list t' CHR ''/''"
  proof
    assume "url_hash t = url_hash t'"
    then have "length (url_hash t) = length (url_hash t')" by simp
    then show "count_list t CHR ''/'' = count_list t' CHR ''/''"
      by (simp add: url_hash_length)
  next
    assume "count_list t CHR ''/'' = count_list t' CHR ''/''"
    then show "url_hash t = url_hash t'"
      by (simp only: url_hash_replicate)
  qed
  from a b c show ?thesis by blast
qed

text \<open>
  C4, as the specification has it, fails: the literal segments of
  \<^verbatim>\<open>/users/<id:int>/posts\<close> are not kept in its key.
\<close>

theorem url_hash_keeps_no_literal:
  "url_hash ''/users/<id:int>/posts'' \<noteq> ''/users/:/posts''"
  by (simp add: url_hash_def)

section \<open>A method that the route does not allow\<close>

text \<open>
  C2. When the route selected for the path of a request has matched the path, and its
  set of methods is not empty and does not contain the method of the request,
  resolution raises \<open>InvalidUsage\<close> with status 405, whose message names the method
  and the path; it does not raise \<open>NotFound\<close>.
\<close>

theorem method_not_allowed:
  assumes "fst (select_route rs (url req)) = Inr (route, Some gs)"
    and "methods route \<noteq> {}"
    and "method req \<notin> methods route"
  shows "fst (get rs req) =
           Inl (InvalidUsage (''Method '' @ method req @ '' not allowed for URL '' @ url req) 405) \<and>
         (\<forall>msg. fst (get rs req) \<noteq> Inl (NotFound msg))"
  using assms by (simp add: get_def check_and_cast_def)

theorem method_not_allowed_witness:
  "fst (get (projr (add fresh ''/users/<id:int>'' [''GET''] ''h''))
            \<lparr>url = ''/users/7'', method = ''POST''\<rparr>) =
     Inl (InvalidUsage ''Method POST not allowed for URL /users/7'' 405)"
proof -
  let ?rs = "projr (add fresh ''/users/<id:int>'' [''GET''] ''h'')"
  let ?req = "\<lparr>url = ''/users/7'', method = ''POST''\<rparr>"
  obtain route gs where sel: "fst (select_route ?rs (url ?req)) = Inr (route, Some gs)"
    and m: "methods route = {''GET''}"
    by (simp add: re_defs router_defs)
  from method_not_allowed [OF sel] m show ?thesis
    by simp
qed

section \<open>Resolution with the cache\<close>

text \<open>
  C9. For a table that no longer changes, started with an empty cache, resolution
  depends on the path and the method alone. Take two requests with the same path and
  method, each resolved after any requests whatever have been served, so that either
  may be answered from the cache or computed: one returns a handler and parameters
  exactly when the other returns the same handler and parameters.
\<close>

theorem resolution_deterministic:
  assumes "url q1 = url q2" and "method q1 = method q2"
  shows "(fst (lru_get m (serve m (rs, []) hist1) q1) = Inr v) =
         (fst (lru_get m (serve m (rs, []) hist2) q2) = Inr v)"
proof -
  have "fst (get rs q1) = fst (get rs q2)"
    using assms get_request_fields [of rs q1] get_request_fields [of rs q2] by simp
  moreover have "(fst (lru_get m (serve m (rs, []) hist1) q1) = Inr v) = (fst (get rs q1) = Inr v)"
    by (rule lru_get_coherent(2) [OF serve_coherent [OF coherent_start]])
  moreover have "(fst (lru_get m (serve m (rs, []) hist2) q2) = Inr v) = (fst (get rs q2) = Inr v)"
    by (rule lru_get_coherent(2) [OF serve_coherent [OF coherent_start]])
  ultimately show ?thesis by simp
qed

theorem resolution_deterministic_witness:
  "fst (lru_get (Some 2)
          (serve (Some 2) (projr (add fresh ''/users/<id:int>'' [''GET''] ''h''), [])
             [\<lparr>url = ''/users/7'', method = ''GET''\<rparr>, \<lparr>url = ''/users/8'', method = ''GET''\<rparr>])
          \<lparr>url = ''/users/7'', method = ''GET''\<rparr>) =
     Inr (''h'', [], [(''id'', PInt 7)])"
proof -
  let ?rs = "projr (add fresh ''/users/<id:int>'' [''GET''] ''h'')"
  let ?q = "\<lparr>url = ''/users/7'', method = ''GET''\<rparr>"
  have "fst (lru_get (Some 2) (serve (Some 2) (?rs, []) []) ?q) =
          Inr (''h'', [], [(''id'', PInt 7)])"
    by (simp add: lru_get_def bounded_def re_defs router_defs)
  then show ?thesis
    using resolution_deterministic [of ?q ?q "Some 2" ?rs "[]" "(''h'', [], [(''id'', PInt 7)])"
             "[?q, \<lparr>url = ''/users/8'', method = ''GET''\<rparr>]"]
    by simp
qed


section \<open>A static path registered more than once\<close>

text \<open>
  C10, as the code has it. Let a path without placeholders be registered while its
  bucket is missing or empty. Whatever is registered afterwards, the same path with
  other handlers included, a request for that path selects the route of this first
  registration, with its handler and its methods, and resolves as it did before the
  later registrations.
\<close>

theorem first_static_registration_wins:
  assumes "fst (dd_get rs0 p) = []"
    and "snd (sub_params p) = []"
    and "add rs0 p m1 h1 = Inr rs1"
    and "register_all rs1 regs = Inr rs2"
    and "url req = p"
  shows "(\<exists>route. fst (select_route rs2 p) = Inr (route, re_match (pattern route) p) \<and>
                  handler route = h1 \<and> methods route = set m1) \<and>
         fst (get rs2 req) = fst (get rs1 req)"
proof -
  from assms(1-4) obtain route b where nr: "new_route p m1 h1 = Inr route"
    and p1: "rs1 p = Some [route]" and p2: "rs2 p = Some (route # b)"
    by (rule static_registration)
  from p1 p2 have "fst (select_route rs2 p) = Inr (route, re_match (pattern route) p)"
    and "fst (select_route rs1 p) = Inr (route, re_match (pattern route) p)"
    by (simp_all add: select_route_head)
  with new_route_fields [OF nr] assms(5) show ?thesis
    by (simp add: get_def)
qed

theorem first_static_registration_wins_witness:
  "fst (get (projr (register_all (projr (add fresh ''/a'' [''GET''] ''h1''))
                      [(''/a'', [''POST''], ''h2'')]))
            \<lparr>url = ''/a'', method = ''GET''\<rparr>) = Inr (''h1'', [], []) \<and>
   fst (get (projr (register_all (projr (add fresh ''/a'' [''GET''] ''h1''))
                      [(''/a'', [''POST''], ''h2'')]))
            \<lparr>url = ''/a'', method = ''POST''\<rparr>) =
     Inl (InvalidUsage ''Method POST not allowed for URL /a'' 405)"
proof -
  let ?rs1 = "projr (add fresh ''/a'' [''GET''] ''h1'')"
  let ?regs = "[(''/a'', [''POST''], ''h2'')]"
  let ?rs2 = "projr (register_all ?rs1 ?regs)"
  have 1: "fst (dd_get (fresh :: string routes) ''/a'') = []"
    by (simp add: fresh_def dd_get_def)
  have 2: "snd (sub_params ''/a'') = []"
    by (simp add: placeholder_at_def)
  have 3: "add fresh ''/a'' [''GET''] ''h1'' = Inr ?rs1"
    by (simp add: re_defs router_defs)
  have 4: "register_all ?rs1 ?regs = Inr ?rs2"
    by (simp add: re_defs router_defs)
  have g: "fst (get ?rs1 \<lparr>url = ''/a'', method = ''GET''\<rparr>) = Inr (''h1'', [], [])"
    by (simp add: re_defs router_defs)
  have g': "fst (get ?rs1 \<lparr>url = ''/a'', method = ''POST''\<rparr>) =
     Inl (InvalidUsage ''Method POST not allowed for URL /a'' 405)"
    by (simp add: re_defs router_defs)
  from first_static_registration_wins [OF 1 2 3 4, of "\<lparr>url = ''/a'', method = ''GET''\<rparr>"]
       first_static_registration_wins [OF 1 2 3 4, of "\<lparr>url = ''/a'', method = ''POST''\<rparr>"]
       g g'
  show ?thesis by simp
qed

text \<open>
  C10, as stated, fails for a path that is its own shape key: the bucket of \<^verbatim>\<open>:/:\<close>
  is also that of the template \<^verbatim>\<open><a>/<b>\<close>, and when that template was registered
  first, a request for \<^verbatim>\<open>:/:\<close> selects it and not the first route registered for the
  static path.
\<close>

theorem shape_key_shadows_static:
  "snd (sub_params '':/:'') = [] \<and>
   fst (get (projr (register_all fresh
               [(''<a>/<b>'', [], ''h0''), ('':/:'', [], ''h1''), ('':/:'', [], ''h2'')]))
            \<lparr>url = '':/:'', method = ''GET''\<rparr>) =
     Inr (''h0'', [], [(''a'', PStr '':''), (''b'', PStr '':'')])"
  by (simp add: re_defs router_defs)



section \<open>Resolving a static path\<close>

text \<open>
  C3. A path registered with a template without placeholders, requested with a method
  that its route allows, is to resolve to the handler of the route and no parameters,
  without failure. The code does not do so for the static path \<^verbatim>\<open>/a+b\<close>. The path is
  found under its own key, its pattern does not match it, and the branch of \<^verbatim>\<open>get\<close>
  for a key that is present, unlike the loop over a bucket, does not test the match:
  \<^verbatim>\<open>match.groups\<close> is taken of \<^verbatim>\<open>None\<close> and \<open>AttributeError\<close> is raised.
\<close>

theorem static_path_with_metacharacter:
  "snd (sub_params ''/a+b'') = [] \<and>
   fst (get (projr (add fresh ''/a+b'' [] ''h'')) \<lparr>url = ''/a+b'', method = ''GET''\<rparr>) =
     Inl AttributeError"
  by (simp add: re_defs router_defs)

text \<open>
  Where the static path, compiled between the anchors, matches itself and was
  registered while its bucket was missing or empty, it resolves, whatever is
  registered afterwards.
\<close>

lemma static_path_resolves:
  assumes "fst (dd_get rs0 p) = []"
    and "snd (sub_params p) = []"
    and "add rs0 p meths h = Inr rs1"
    and "register_all rs1 regs = Inr rs2"
    and "re_compile (''^'' @ p @ ''$'') = Inr pat"
    and "re_match pat p = Some gs"
    and "set meths = {} \<or> method req \<in> set meths"
    and "url req = p"
  shows "fst (get rs2 req) = Inr (h, [], [])"
proof -
  from assms(1-4) obtain route b where nr: "new_route p meths h = Inr route"
    and p2: "rs2 p = Some (route # b)"
    by (rule static_registration)
  from new_route_fields [OF nr] assms(2,5) sub_params_static [OF assms(2)]
  have f: "handler route = h" "methods route = set meths" "parameters route = []"
    "pattern route = pat"
    by simp_all
  from p2 have "fst (select_route rs2 p) = Inr (route, re_match (pattern route) p)"
    by (simp add: select_route_head)
  with f assms(6,7,8) show ?thesis
    by (auto simp: get_def check_and_cast_def)
qed

lemma static_path_resolves_example:
  "fst (get (projr (register_all (projr (add fresh ''/b/c'' [''GET''] ''h''))
                      [(''/b/<x>'', [], ''h2'')]))
            \<lparr>url = ''/b/c'', method = ''GET''\<rparr>) = Inr (''h'', [], [])"
proof -
  let ?rs1 = "projr (add fresh ''/b/c'' [''GET''] ''h'')"
  let ?regs = "[(''/b/<x>'', [], ''h2'')]"
  let ?rs2 = "projr (register_all ?rs1 ?regs)"
  let ?pat = "projr (re_compile ''^/b/c$'')"
  have 1: "fst (dd_get (fresh :: string routes) ''/b/c'') = []"
    by (simp add: fresh_def dd_get_def)
  have 2: "snd (sub_params ''/b/c'') = []"
    by (simp add: placeholder_at_def)
  have 3: "add fresh ''/b/c'' [''GET''] ''h'' = Inr ?rs1"
    by (simp add: re_defs router_defs)
  have 4: "register_all ?rs1 ?regs = Inr ?rs2"
    by (simp add: re_defs router_defs)
  have 5: "re_compile (''^'' @ ''/b/c'' @ ''$'') = Inr ?pat"
    by (simp add: re_defs)
  have 6: "re_match ?pat ''/b/c'' = Some []"
    by (simp add: re_defs)
  have 7: "set [''GET''] = {} \<or> method \<lparr>url = ''/b/c'', method = ''GET''\<rparr> \<in> set [''GET'']"
    by simp
  from static_path_resolves [OF 1 2 3 4 5 6 7] show ?thesis
    by simp
qed

section \<open>Two templates with the same shape key\<close>

text \<open>
  C5, as the code has it. Let two templates with parameters and the same shape key be
  registered, the first before the second, and let both patterns match a path that
  has this shape key too. Then registering the second does not change which route is
  selected for the path, nor the result of resolving it; and when the path is not a
  key of the table and no route that was in the bucket before the first template
  matches it, the route selected is that of the first template.
\<close>

theorem first_registered_wins:
  assumes "add rs0 t1 m1 h1 = Inr rs1"
    and "register_all rs1 regs = Inr rs2"
    and "add rs2 t2 m2 h2 = Inr rs3"
    and "new_route t1 m1 h1 = Inr route1"
    and "new_route t2 m2 h2 = Inr route2"
    and "parameters route1 \<noteq> []"
    and "parameters route2 \<noteq> []"
    and "url_hash t1 = url_hash t2"
    and "re_match (pattern route1) u = Some g1"
    and "re_match (pattern route2) u = Some g2"
    and "url_hash u = url_hash t1"
    and "url req = u"
  shows "fst (select_route rs3 u) = fst (select_route rs2 u) \<and>
         fst (get rs3 req) = fst (get rs2 req) \<and>
         (rs3 u = None \<and> scan (fst (dd_get rs0 (url_hash t1))) u = None \<longrightarrow>
            fst (select_route rs3 u) = Inr (route1, Some g1))"
proof -
  let ?k = "url_hash t1"
  let ?b0 = "fst (dd_get rs0 ?k)"
  from assms(1,4) assms(6) have rs1: "rs1 ?k = Some (?b0 @ [route1])"
    by (auto elim!: add_Inr simp: route_key_def)
  from register_all_keeps_bucket [OF assms(2) rs1] obtain new where
    rs2: "rs2 ?k = Some (?b0 @ [route1] @ new)"
    by auto
  from assms(3,5) assms(7,8) rs2
  have rs3: "rs3 = rs2(?k \<mapsto> (?b0 @ [route1] @ new) @ [route2])"
    by (auto elim!: add_Inr simp: route_key_def dd_get_def)
  have m: "scan (?b0 @ [route1] @ new) u \<noteq> None"
    using assms(9) by (simp add: scan_append split: option.splits)
  have a: "fst (select_route rs3 u) = fst (select_route rs2 u)"
    unfolding rs3 using rs2 m by (rule select_route_append)
  have b: "fst (get rs3 req) = fst (get rs2 req)"
    using a assms(12) by (simp add: fst_get)
  have c: "fst (select_route rs3 u) = Inr (route1, Some g1)"
    if "rs3 u = None" and "scan ?b0 u = None"
  proof -
    have "rs3 ?k = Some (?b0 @ [route1] @ new @ [route2])"
      by (simp add: rs3)
    with that assms(9,11) show ?thesis
      by (simp add: select_route_def dd_get_def scan_append)
  qed
  from a b c show ?thesis by blast
qed

theorem first_registered_wins_witness:
  "fst (get (projr (add (projr (add fresh ''/u/<id:int>'' [] ''h1'')) ''/u/<name>'' [] ''h2''))
            \<lparr>url = ''/u/7'', method = ''GET''\<rparr>) =
     Inr (''h1'', [], [(''id'', PInt 7)])"
proof -
  let ?rs1 = "projr (add fresh ''/u/<id:int>'' [] ''h1'')"
  let ?rs3 = "projr (add ?rs1 ''/u/<name>'' [] ''h2'')"
  let ?r1 = "projr (new_route ''/u/<id:int>'' [] ''h1'')"
  let ?r2 = "projr (new_route ''/u/<name>'' [] ''h2'')"
  let ?q = "\<lparr>url = ''/u/7'', method = ''GET''\<rparr>"
  have 1: "add fresh ''/u/<id:int>'' [] ''h1'' = Inr ?rs1"
    by (simp add: re_defs router_defs)
  have 2: "register_all ?rs1 [] = Inr ?rs1"
    by simp
  have 3: "add ?rs1 ''/u/<name>'' [] ''h2'' = Inr ?rs3"
    by (simp add: re_defs router_defs)
  have 4: "new_route ''/u/<id:int>'' [] ''h1'' = Inr ?r1"
    by (simp add: re_defs router_defs)
  have 5: "new_route ''/u/<name>'' [] ''h2'' = Inr ?r2"
    by (simp add: re_defs router_defs)
  have 6: "parameters ?r1 \<noteq> []"
    by (simp add: re_defs router_defs)
  have 7: "parameters ?r2 \<noteq> []"
    by (simp add: re_defs router_defs)
  have 8: "url_hash ''/u/<id:int>'' = url_hash ''/u/<name>''"
    by (simp add: url_hash_def)
  have 9: "re_match (pattern ?r1) ''/u/7'' = Some [Some ''7'']"
    by (simp add: re_defs router_defs)
  have 10: "re_match (pattern ?r2) ''/u/7'' = Some [Some ''7'']"
    by (simp add: re_defs router_defs)
  have 11: "url_hash ''/u/7'' = url_hash ''/u/<id:int>''"
    by (simp add: url_hash_def)
  have 12: "url ?q = ''/u/7''"
    by simp
  have g: "fst (get ?rs1 ?q) = Inr (''h1'', [], [(''id'', PInt 7)])"
    by (simp add: re_defs router_defs)
  from first_registered_wins [OF 1 2 3 4 5 6 7 8 9 10 11 12] g show ?thesis
    by simp
qed

text \<open>
  C5, as stated, fails when a parameter matches a slash: the path then has another
  shape key than the templates, their bucket is not the one scanned, and neither
  template is selected.
\<close>

theorem slash_in_parameter_not_found:
  "url_hash ''/f/<p:.*>'' = url_hash ''/f/<q:.+>'' \<and>
   re_match (pattern (projr (new_route ''/f/<p:.*>'' [] ''h1''))) ''/f/a/b'' = Some [Some ''a/b''] \<and>
   re_match (pattern (projr (new_route ''/f/<q:.+>'' [] ''h2''))) ''/f/a/b'' = Some [Some ''a/b''] \<and>
   fst (get (projr (register_all fresh [(''/f/<p:.*>'', [], ''h1''), (''/f/<q:.+>'', [], ''h2'')]))
            \<lparr>url = ''/f/a/b'', method = ''GET''\<rparr>) =
     Inl (NotFound ''Requested URL /f/a/b not found'')"
  by (simp add: re_defs router_defs)


section \<open>A type token that is not a known type\<close>






section \<open>A cast that fails\<close>

text \<open>
  C8. When a route is selected with a match, the method is allowed, a cast applied to
  one of the captured values raises \<open>ValueError\<close>, and every cast applied is within
  what is modelled of \<^verbatim>\<open>int\<close> and \<^verbatim>\<open>float\<close>, resolution raises \<open>ValueError\<close>: no
  value is returned in place of the one that could not be cast. The number pattern
  accepts \<^verbatim>\<open>1.2.3\<close>, on which \<^verbatim>\<open>float\<close> fails.
\<close>

theorem cast_failure_is_raised:
  assumes "fst (select_route rs (url req)) = Inr (route, Some gs)"
    and "methods route = {} \<or> method req \<in> methods route"
    and "\<exists>vp \<in> set (zip gs (parameters route)). apply_cast (cast (snd vp)) (fst vp) = Inl ValueError"
    and "\<forall>vp \<in> set (zip gs (parameters route)). apply_cast (cast (snd vp)) (fst vp) \<noteq> Inl Unmodelled"
  shows "fst (get rs req) = Inl ValueError"
  using assms(1,2) build_kwargs_error [OF assms(3,4), of "[]"]
  by (auto simp: fst_get check_and_cast_def)

theorem cast_failure_is_raised_witness:
  "apply_cast Py_float (Some ''1.2.3'') = Inl ValueError \<and>
   fst (get (projr (add fresh ''/n/<x:number>'' [] ''h''))
            \<lparr>url = ''/n/1.2.3'', method = ''GET''\<rparr>) = Inl ValueError"
proof -
  let ?rs = "projr (add fresh ''/n/<x:number>'' [] ''h'')"
  let ?route = "projr (new_route ''/n/<x:number>'' [] ''h'')"
  let ?q = "\<lparr>url = ''/n/1.2.3'', method = ''GET''\<rparr>"
  have c: "apply_cast Py_float (Some ''1.2.3'') = Inl ValueError"
    by (simp add: router_defs code_def)
  have p: "parameters ?route = [\<lparr>name = ''x'', cast = Py_float\<rparr>]" and m: "methods ?route = {}"
    by (simp_all add: re_defs router_defs)
  have 1: "fst (select_route ?rs (url ?q)) = Inr (?route, Some [Some ''1.2.3''])"
    by (simp add: re_defs router_defs)
  have 2: "methods ?route = {} \<or> method ?q \<in> methods ?route"
    using m by simp
  have 3: "\<exists>vp \<in> set (zip [Some ''1.2.3''] (parameters ?route)).
             apply_cast (cast (snd vp)) (fst vp) = Inl ValueError"
    using c by (simp add: p)
  have 4: "\<forall>vp \<in> set (zip [Some ''1.2.3''] (parameters ?route)).
             apply_cast (cast (snd vp)) (fst vp) \<noteq> Inl Unmodelled"
    using c by (simp add: p)
  from cast_failure_is_raised [OF 1 2 3 4] c show ?thesis
    by simp
qed


section \<open>Anchoring\<close>

text \<open>
  C7, as the code has it. The pattern of a route is its pattern string compiled between
  \<^verbatim>\<open>^\<close> and \<^verbatim>\<open>$\<close>. When the compiled pattern is not an alternation as a whole and
  the pattern string does not end in a backslash, a match of the pattern on a path that
  does not end in a newline leaves nothing of the path unread: it is a match of the
  entire path. A route registered for \<^verbatim>\<open>/a\<close> does not resolve \<^verbatim>\<open>/a/\<close>, nor one
  registered for \<^verbatim>\<open>/a/\<close> the path \<^verbatim>\<open>/a\<close>.
\<close>

theorem anchored_match_is_entire:
  assumes "new_route t meths h = Inr route"
    and "\<not> top_alt (fst (pattern route))"
    and "\<not> ends_with bslash (fst (sub_params t))"
    and "first_match (pattern route) u = Some (rest, gs)"
    and "\<not> ends_with newline u"
  shows "rest = [] \<and>
         fst (get (projr (add fresh ''/a'' meths h)) \<lparr>url = ''/a/'', method = m\<rparr>) =
           Inl (NotFound ''Requested URL /a/ not found'') \<and>
         fst (get (projr (add fresh ''/a/'' meths h)) \<lparr>url = ''/a'', method = m\<rparr>) =
           Inl (NotFound ''Requested URL /a not found'')"
proof -
  from new_route_fields [OF assms(1)]
  have "re_compile (''^'' @ fst (sub_params t) @ ''$'') = Inr (pattern route)"
    by simp
  from compiled_ends_in_Eol [OF this assms(2,3)] obtain items where
    "fst (pattern route) = seq_of (Eol # items)"
    by blast
  with first_match_in_ms [OF assms(4)]
  have "(rest, gs) \<in> set (ms (length u) (seq_of (Eol # items))
                             (u, replicate (snd (pattern route)) None))"
    by simp
  from ms_seq_of_Eol [OF this] ms_suffix [OF this]
  have "rest = [] \<or> rest = [newline]" and "\<exists>pre. u = pre @ rest"
    by simp_all
  with assms(5) have a: "rest = []"
    by (auto simp: ends_with_def)
  have b: "fst (get (projr (add fresh ''/a'' meths h)) \<lparr>url = ''/a/'', method = m\<rparr>) =
           Inl (NotFound ''Requested URL /a/ not found'')"
    by (simp add: re_defs router_defs)
  have c: "fst (get (projr (add fresh ''/a/'' meths h)) \<lparr>url = ''/a'', method = m\<rparr>) =
           Inl (NotFound ''Requested URL /a not found'')"
    by (simp add: re_defs router_defs)
  from a b c show ?thesis by simp
qed

theorem anchored_match_is_entire_witness:
  "first_match (pattern (projr (new_route ''/users/<id:int>'' [] ''h''))) ''/users/7'' =
     Some ([], [Some ''7''])"
proof -
  let ?route = "projr (new_route ''/users/<id:int>'' [] ''h'')"
  have 1: "new_route ''/users/<id:int>'' [] ''h'' = Inr ?route"
    by (simp add: re_defs router_defs)
  have 2: "\<not> top_alt (fst (pattern ?route))"
    by (simp add: re_defs router_defs)
  have 3: "\<not> ends_with bslash (fst (sub_params ''/users/<id:int>''))"
    by (simp add: ends_with_def re_defs router_defs)
  obtain rest where 4: "first_match (pattern ?route) ''/users/7'' = Some (rest, [Some ''7''])"
    by (simp add: re_defs router_defs)
  have 5: "\<not> ends_with newline ''/users/7''"
    by (simp add: ends_with_def newline_def)
  from anchored_match_is_entire [OF 1 2 3 4 5] have "rest = []"
    by (rule conjunct1)
  with 4 show ?thesis by simp
qed

text \<open>
  C7, as stated, fails for a template whose literal text has an alternation outside
  any group: the anchors bind to the alternatives, \<^verbatim>\<open>^/x\<close> matches the first two
  characters of \<^verbatim>\<open>/x/zzz\<close>, and the route is selected. The group took no part in the
  match, so the parameter is the text of the default \<^verbatim>\<open>1\<close> of \<^verbatim>\<open>groups(1)\<close>.
\<close>

theorem alternation_matches_prefix:
  "first_match (pattern (projr (new_route ''/x|/<y>'' [] ''h''))) ''/x/zzz'' =
     Some (''/zzz'', [None]) \<and>
   fst (get (projr (add fresh ''/x|/<y>'' [] ''h'')) \<lparr>url = ''/x/zzz'', method = ''GET''\<rparr>) =
     Inr (''h'', [], [(''y'', PStr ''1'')])"
  by (simp add: re_defs router_defs)

text \<open>
  A path that ends in a newline is outside the statement above: \<^verbatim>\<open>$\<close> also matches
  before a final newline.
\<close>

lemma trailing_newline_matches:
  "fst (get (projr (add fresh ''/users/<id:int>'' [] ''h''))
            \<lparr>url = ''/users/7'' @ [newline], method = ''GET''\<rparr>) =
     Inr (''h'', [], [(''id'', PInt 7)])"
  by (simp add: re_defs router_defs)

end
